theory Spec2Isabelle
  imports Main "HOL-Library.AList" "HOL-Library.Sublist" "HOL-Library.Multiset"
begin

section \<open>ThreadGram scraper: grouping, size-variant deduplication, scroll loop\<close>

text \<open>
  The development embeds \<^verbatim>\<open>src/scraper.py\<close>: the two pure functions
  \<^verbatim>\<open>group_images\<close> and \<^verbatim>\<open>dedupe_sizes\<close>, the scroll loop of
  \<^verbatim>\<open>scrape_threads\<close> and the result dictionary it builds.

  A URL is a \<^typ>\<open>string\<close>, one \<^typ>\<open>char\<close> per code point; the model therefore covers
  URLs whose code points are below 256. On these, the class \<^verbatim>\<open>\d\<close> of Python's
  \<^verbatim>\<open>re\<close> is exactly the ten ASCII digits.
\<close>

subsection \<open>The fragment of Python's regular expressions that the source uses\<close>

definition is_digit :: "char \<Rightarrow> bool" where
  "is_digit c \<longleftrightarrow> c \<in> set ''0123456789''"

text \<open>
  Both patterns of the source are sequences of literal characters, \<^verbatim>\<open>\d+\<close> and
  \<^verbatim>\<open>\d{n}\<close>. \<open>match_here\<close> is the backtracking matcher anchored at the start of
  the subject: the greedy \<^verbatim>\<open>\d+\<close> tries the longest run of digits first and gives
  digits back one at a time. The result is the text consumed by each atom of the first
  alternative that succeeds.
\<close>

datatype atom = Lit char | Digits1 | DigitsN nat

fun first_some :: "'a option list \<Rightarrow> 'a option" where
  "first_some [] = None"
| "first_some (None # xs) = first_some xs"
| "first_some (Some x # xs) = Some x"

primrec match_here :: "atom list \<Rightarrow> string \<Rightarrow> string list option" where
  "match_here [] s = Some []"
| "match_here (a # as) s =
     (case a of
        Lit c \<Rightarrow>
          (case s of
             [] \<Rightarrow> None
           | x # xs \<Rightarrow> if x = c then map_option ((#) [x]) (match_here as xs) else None)
      | DigitsN n \<Rightarrow>
          (if n \<le> length s \<and> list_all is_digit (take n s)
           then map_option ((#) (take n s)) (match_here as (drop n s))
           else None)
      | Digits1 \<Rightarrow>
          first_some
            (map (\<lambda>n. map_option ((#) (take n s)) (match_here as (drop n s)))
               (rev [1..<Suc (length (takeWhile is_digit s))])))"

text \<open>\<^verbatim>\<open>re.search\<close>: the match at the leftmost start position that has one.\<close>

fun re_search :: "atom list \<Rightarrow> string \<Rightarrow> string list option" where
  "re_search p [] = match_here p []"
| "re_search p (c # cs) =
     (case match_here p (c # cs) of
        Some g \<Rightarrow> Some g
      | None \<Rightarrow> re_search p cs)"

text \<open>\<^verbatim>\<open>sub in url\<close> on strings: \<open>sub\<close> occurs as a contiguous substring.\<close>

fun contains :: "string \<Rightarrow> string \<Rightarrow> bool" where
  "contains sub [] = (sub = [])"
| "contains sub (c # cs) = (prefix sub (c # cs) \<or> contains sub cs)"

subsection \<open>\<^verbatim>\<open>dedupe_sizes\<close>\<close>

text \<open>The pattern \<^verbatim>\<open>/(\d+_\d+_\d+_n)\<close>; group 1 is everything after the slash.\<close>

definition img_pattern :: "atom list" where
  "img_pattern =
     [Lit CHR ''/'', Digits1, Lit CHR ''_'', Digits1, Lit CHR ''_'', Digits1,
      Lit CHR ''_'', Lit CHR ''n'']"

definition img_id :: "string \<Rightarrow> string option" where
  "img_id url = map_option (\<lambda>g. concat (tl g)) (re_search img_pattern url)"

definition size_priority :: "string \<Rightarrow> int" where
  "size_priority url =
     (if contains ''s150x150'' url then 1
      else if contains ''s320x320'' url then 2
      else if contains ''s640x640'' url then 3
      else 4)"

text \<open>
  \<^verbatim>\<open>seen_ids\<close> is a Python dictionary: an association list in insertion order, where
  assigning to a key that is present replaces the value in place.
\<close>

type_synonym seen = "(string \<times> (string \<times> int)) list"

definition dedupe_step :: "seen \<Rightarrow> string \<Rightarrow> seen" where
  "dedupe_step seen_ids url =
     (case img_id url of
        Some k \<Rightarrow>
          (let priority = size_priority url in
           if (case map_of seen_ids k of None \<Rightarrow> True | Some e \<Rightarrow> priority > snd e)
           then AList.update k (url, priority) seen_ids
           else seen_ids)
      | None \<Rightarrow> AList.update url (url, 0) seen_ids)"

definition dedupe_sizes :: "string list \<Rightarrow> string list" where
  "dedupe_sizes urls = map (\<lambda>(url, p). url) (map snd (foldl dedupe_step [] urls))"

subsection \<open>\<^verbatim>\<open>group_images\<close>\<close>

text \<open>The pattern \<^verbatim>\<open>/(\d+)_(\d{9})\<close>; group 2 is the text of the fourth atom.\<close>

definition post_pattern :: "atom list" where
  "post_pattern = [Lit CHR ''/'', Digits1, Lit CHR ''_'', DigitsN 9]"

definition post_id :: "string \<Rightarrow> string option" where
  "post_id url = map_option (\<lambda>g. g ! 3) (re_search post_pattern url)"

text \<open>Python's \<^verbatim>\<open>str\<close> of a non-negative integer: decimal, no leading zero.\<close>

definition digit_char :: "nat \<Rightarrow> char" where
  "digit_char d = ''0123456789'' ! d"

function str_nat :: "nat \<Rightarrow> string" where
  "str_nat n = (if n < 10 then [digit_char n] else str_nat (n div 10) @ [digit_char (n mod 10)])"
  by pat_completeness auto
termination
  by (relation "measure id") auto

declare str_nat.simps [simp del]

text \<open>The key \<^verbatim>\<open>f"single_{n}"\<close> of a URL that the pattern does not match.\<close>

definition single_key :: "nat \<Rightarrow> string" where
  "single_key n = ''single_'' @ str_nat n"

type_synonym groups = "(string \<times> string list) list"

definition group_step :: "groups \<Rightarrow> string \<Rightarrow> groups" where
  "group_step groups url =
     (case post_id url of
        Some pid \<Rightarrow>
          AList.map_entry pid (\<lambda>urls. urls @ [url])
            (if pid \<notin> fst ` set groups then AList.update pid [] groups else groups)
      | None \<Rightarrow> AList.update (single_key (length groups)) [url] groups)"

definition build_groups :: "string list \<Rightarrow> groups" where
  "build_groups images = foldl group_step [] images"

fun collect_posts :: "groups \<Rightarrow> string list list" where
  "collect_posts [] = []"
| "collect_posts ((pid, urls) # rest) =
     (let unique_images = dedupe_sizes urls in
      if unique_images \<noteq> [] then unique_images # collect_posts rest
      else collect_posts rest)"

definition group_images :: "string list \<Rightarrow> string list list" where
  "group_images images = collect_posts (build_groups images)"


subsection \<open>The scroll loop of \<^verbatim>\<open>scrape_threads\<close>\<close>

text \<open>
  The browser is an external collaborator: \<open>page i\<close> is the list that the extraction
  script returns in iteration \<open>i\<close>. The loop state holds the three variables of the source,
  \<^verbatim>\<open>all_images\<close> (a Python set), \<^verbatim>\<open>last_count\<close> and \<^verbatim>\<open>no_new_count\<close> (counters that
  start at 0 and are only incremented, reset or assigned a \<^verbatim>\<open>len\<close>), and three
  observations of the run: how many iterations were entered, how many scroll commands were
  issued, and whether the \<^verbatim>\<open>break\<close> was taken.
\<close>

record collector =
  all_images :: "string set"
  last_count :: nat
  no_new_count :: nat
  iterations :: nat
  scrolls :: nat
  stopped :: bool

definition init_collector :: collector where
  "init_collector =
     \<lparr>all_images = {}, last_count = 0, no_new_count = 0, iterations = 0, scrolls = 0,
      stopped = False\<rparr>"

fun scroll_loop :: "(nat \<Rightarrow> string list) \<Rightarrow> nat list \<Rightarrow> collector \<Rightarrow> collector" where
  "scroll_loop page [] st = st"
| "scroll_loop page (i # rest) st =
     (let images = page i;
          st1 = st\<lparr>all_images := all_images st \<union> set images, iterations := Suc (iterations st)\<rparr>;
          current_count = card (all_images st1)
      in if current_count = last_count st1 then
           (let st2 = st1\<lparr>no_new_count := no_new_count st1 + 1\<rparr>
            in if no_new_count st2 \<ge> 5 then st2\<lparr>stopped := True\<rparr>
               else scroll_loop page rest
                      (st2\<lparr>last_count := current_count, scrolls := Suc (scrolls st2)\<rparr>))
         else scroll_loop page rest
                (st1\<lparr>no_new_count := 0, last_count := current_count,
                     scrolls := Suc (scrolls st1)\<rparr>))"

text \<open>\<^verbatim>\<open>for i in range(max_scrolls)\<close>: no iteration when the budget is not positive.\<close>

definition collect :: "(nat \<Rightarrow> string list) \<Rightarrow> int \<Rightarrow> collector" where
  "collect page max_scrolls = scroll_loop page [0..<nat max_scrolls] init_collector"


subsection \<open>The result dictionary\<close>

datatype json = JString string | JInt int | JArray "json list"

text \<open>
  \<open>images\<close> is \<^verbatim>\<open>list(all_images)\<close>, an enumeration of the collected set in an order
  that Python does not specify, and \<open>now\<close> is the string that
  \<^verbatim>\<open>datetime.now().isoformat()\<close> returned. The dictionary literal keeps the order in
  which its keys are written.
\<close>

definition scrape_result :: "string \<Rightarrow> string \<Rightarrow> string list \<Rightarrow> (string \<times> json) list" where
  "scrape_result username now images =
     (let posts = group_images images in
      [(''username'', JString username),
       (''scraped_at'', JString now),
       (''total_images'', JInt (int (card (set images)))),
       (''total_posts'', JInt (int (length posts))),
       (''posts'', JArray (map (\<lambda>p. JArray (map JString p)) posts))])"

subsection \<open>Auxiliary notions used in the statements\<close>

text \<open>When a piece of text is what an atom of a pattern may consume.\<close>

fun atom_ok :: "atom \<Rightarrow> string \<Rightarrow> bool" where
  "atom_ok (Lit c) t = (t = [c])"
| "atom_ok Digits1 t = (t \<noteq> [] \<and> list_all is_digit t)"
| "atom_ok (DigitsN n) t = (length t = n \<and> list_all is_digit t)"

text \<open>
  The dictionary key under which \<^verbatim>\<open>dedupe_sizes\<close> files a URL, and the priority it
  stores with it: the canonical identifier and the size priority when the pattern matches,
  the URL itself and 0 when it does not.
\<close>

definition dkey :: "string \<Rightarrow> string" where
  "dkey url = (case img_id url of Some k \<Rightarrow> k | None \<Rightarrow> url)"

definition dprio :: "string \<Rightarrow> int" where
  "dprio url = (case img_id url of Some k \<Rightarrow> size_priority url | None \<Rightarrow> 0)"

text \<open>The URLs held by a dictionary, in the order of \<^verbatim>\<open>seen_ids.values()\<close>.\<close>

definition seen_urls :: "seen \<Rightarrow> string list" where
  "seen_urls seen_ids = map (fst \<circ> snd) seen_ids"

text \<open>Every entry is filed under the key of its URL, with that URL's priority.\<close>

definition seen_ok :: "seen \<Rightarrow> bool" where
  "seen_ok seen_ids \<longleftrightarrow>
     distinct (map fst seen_ids) \<and> list_all (\<lambda>e. fst e = dkey (fst (snd e)) \<and> snd (snd e) = dprio (fst (snd e))) seen_ids"

text \<open>Keys of the shape \<^verbatim>\<open>single_...\<close>, as opposed to PostIDs.\<close>

definition fallback_key :: "string \<Rightarrow> bool" where
  "fallback_key k \<longleftrightarrow> prefix ''single_'' k"

text \<open>
  What holds of every entry of \<^verbatim>\<open>groups\<close> when the dictionary has \<open>n\<close> entries: a
  fallback key is numbered below \<open>n\<close> and holds one URL that the grouping pattern does
  not match; any other key is a PostID of nine digits and holds, in a non-empty list, URLs
  with that PostID.
\<close>

definition group_ok :: "nat \<Rightarrow> string \<times> string list \<Rightarrow> bool" where
  "group_ok n g \<longleftrightarrow>
     (if fallback_key (fst g)
      then (\<exists>j<n. fst g = single_key j) \<and> (\<exists>u. snd g = [u] \<and> post_id u = None)
      else length (fst g) = 9 \<and> list_all is_digit (fst g) \<and> snd g \<noteq> []
           \<and> list_all (\<lambda>u. post_id u = Some (fst g)) (snd g))"

definition groups_ok :: "groups \<Rightarrow> bool" where
  "groups_ok gs \<longleftrightarrow> distinct (map fst gs) \<and> list_all (group_ok (length gs)) gs"

text \<open>On entering an iteration, \<^verbatim>\<open>last_count\<close> is the size of the finite set collected so far.\<close>

definition counts_ok :: "collector \<Rightarrow> bool" where
  "counts_ok st \<longleftrightarrow> finite (all_images st) \<and> last_count st = card (all_images st)"

text \<open>
  A prefix in which no slash is immediately followed by a digit: neither pattern of the
  source can start a match inside it.
\<close>

fun slash_digit_free :: "string \<Rightarrow> bool" where
  "slash_digit_free [] = True"
| "slash_digit_free [a] = True"
| "slash_digit_free (a # b # cs) =
     ((a = CHR ''/'' \<longrightarrow> \<not> is_digit b) \<and> slash_digit_free (b # cs))"

section \<open>Properties\<close>

subsection \<open>The matcher returns genuine matches\<close>

lemma first_some_SomeD: "first_some xs = Some y \<Longrightarrow> Some y \<in> set xs"
  by (induction xs rule: first_some.induct) auto

lemma takeWhile_take_all:
  assumes n: "n \<le> length (takeWhile P s)"
  shows "list_all P (take n s)"
proof -
  have "take n (takeWhile P s @ dropWhile P s) = take n (takeWhile P s)"
    using n by (simp del: takeWhile_dropWhile_id)
  then have "take n s = take n (takeWhile P s)" by simp
  then have "set (take n s) \<subseteq> set (takeWhile P s)" by (simp add: set_take_subset)
  then show ?thesis by (auto simp: list_all_iff dest: set_takeWhileD)
qed

lemma match_here_sound:
  "match_here p s = Some g \<Longrightarrow> list_all2 atom_ok p g \<and> prefix (concat g) s"
proof (induction p arbitrary: s g)
  case Nil
  then show ?case by simp
next
  case (Cons a as)
  show ?case
  proof (cases a)
    case (Lit c)
    with Cons.prems obtain xs g' where s: "s = c # xs" and g: "g = [c] # g'"
      and m: "match_here as xs = Some g'"
      by (auto split: list.splits if_splits)
    from Cons.IH[OF m] show ?thesis using Lit s g by simp
  next
    case Digits1
    with Cons.prems have "Some g \<in> set (map (\<lambda>n. map_option ((#) (take n s)) (match_here as (drop n s)))
               (rev [1..<Suc (length (takeWhile is_digit s))]))"
      by (auto dest!: first_some_SomeD)
    then obtain n where nn: "n \<in> set (rev [1..<Suc (length (takeWhile is_digit s))])"
      and mo: "Some g = map_option ((#) (take n s)) (match_here as (drop n s))"
      by (auto simp: image_iff)
    from nn have n: "1 \<le> n" "n \<le> length (takeWhile is_digit s)" by auto
    from mo obtain g' where g: "g = take n s # g'" and m: "match_here as (drop n s) = Some g'"
      by (cases "match_here as (drop n s)") auto
    have len: "n \<le> length s" using n(2) length_takeWhile_le[of is_digit s] by linarith
    have "take n s \<noteq> []" using n(1) len by auto
    moreover have "list_all is_digit (take n s)" using n(2) by (rule takeWhile_take_all)
    moreover have "prefix (take n s @ concat g') s"
      using Cons.IH[OF m] by (metis append_take_drop_id same_prefix_prefix)
    ultimately show ?thesis using Cons.IH[OF m] Digits1 g by simp
  next
    case (DigitsN n)
    with Cons.prems obtain g' where n: "n \<le> length s" "list_all is_digit (take n s)"
      and g: "g = take n s # g'" and m: "match_here as (drop n s) = Some g'"
      by (auto split: if_splits)
    have "prefix (take n s @ concat g') s"
      using Cons.IH[OF m] by (metis append_take_drop_id same_prefix_prefix)
    then show ?thesis using Cons.IH[OF m] DigitsN g n by simp
  qed
qed

lemma re_search_sound:
  "re_search p s = Some g \<Longrightarrow> list_all2 atom_ok p g \<and> sublist (concat g) s"
proof (induction p s rule: re_search.induct)
  case (1 p)
  then show ?case using match_here_sound[of p "[]" g] by (auto simp: prefix_imp_sublist simp del: sublist_Nil_right)
next
  case (2 p c cs)
  show ?case
  proof (cases "match_here p (c # cs)")
    case None
    with 2 have "list_all2 atom_ok p g \<and> sublist (concat g) cs" by simp
    then show ?thesis by (auto simp: sublist_Cons_right)
  next
    case (Some g')
    with 2 have "g' = g" by simp
    with Some show ?thesis using match_here_sound[of p "c # cs" g] by (auto simp: prefix_imp_sublist)
  qed
qed


lemma post_id_SomeD:
  assumes "post_id url = Some pid"
  shows "length pid = 9" and "list_all is_digit pid" and "CHR ''/'' \<in> set url"
proof -
  from assms obtain g where g: "re_search post_pattern url = Some g" and pid: "pid = g ! 3"
    by (auto simp: post_id_def)
  from re_search_sound[OF g] have ok: "list_all2 atom_ok post_pattern g" and sub: "sublist (concat g) url"
    by auto
  have "atom_ok (post_pattern ! 3) (g ! 3)"
    by (rule list_all2_nthD[OF ok]) (simp add: post_pattern_def)
  then have d: "length pid = 9 \<and> list_all is_digit pid"
    using pid by (simp add: post_pattern_def)
  from d show "length pid = 9" by simp
  from d show "list_all is_digit pid" by simp
  from ok obtain a g' where gs: "g = a # g'" and a: "atom_ok (Lit CHR ''/'') a"
    by (auto simp: post_pattern_def list_all2_Cons1)
  then have "concat g = CHR ''/'' # concat g'" by simp
  with sub show "CHR ''/'' \<in> set url" by (auto simp: sublist_def)
qed


subsection \<open>The matcher finds every match\<close>

text \<open>
  Together with soundness: \<open>re_search\<close> succeeds exactly when some substring of the
  subject is, atom by atom, a text the pattern accepts.
\<close>

lemma first_some_None_iff: "first_some xs = None \<longleftrightarrow> (\<forall>x\<in>set xs. x = None)"
  by (induction xs rule: first_some.induct) auto

lemma digits_prefix_takeWhile:
  assumes "list_all is_digit t" and "prefix t s"
  shows "length t \<le> length (takeWhile is_digit s)"
proof -
  from assms(2) obtain r where s: "s = t @ r" by (auto simp: prefix_def)
  have "takeWhile is_digit (t @ r) = t @ takeWhile is_digit r"
    using assms(1) by (simp add: list_all_iff takeWhile_append2)
  then show ?thesis by (simp add: s)
qed

lemma match_here_complete:
  "list_all2 atom_ok p g \<Longrightarrow> prefix (concat g) s \<Longrightarrow> match_here p s \<noteq> None"
proof (induction p arbitrary: g s)
  case Nil
  then show ?case by simp
next
  case (Cons a as)
  from Cons.prems(1) obtain t g' where g: "g = t # g'" and at: "atom_ok a t"
    and rest: "list_all2 atom_ok as g'"
    by (auto simp: list_all2_Cons1)
  from Cons.prems(2) g obtain r where s: "s = t @ concat g' @ r" by (auto simp: prefix_def)
  have tk: "take (length t) s = t" by (simp add: s)
  have dr: "drop (length t) s = concat g' @ r" by (simp add: s)
  have len: "length t \<le> length s" by (simp add: s)
  have "prefix (concat g') (drop (length t) s)" by (simp add: dr)
  from Cons.IH[OF rest this] obtain y where y: "match_here as (drop (length t) s) = Some y"
    by auto
  show ?case
  proof (cases a)
    case (Lit c)
    with at have t: "t = [c]" by simp
    then obtain s' where sc: "s = c # s'" using s by simp
    with y t have "match_here as s' = Some y" by simp
    then show ?thesis unfolding Lit sc by simp
  next
    case Digits1
    with at have ne: "t \<noteq> []" and dg: "list_all is_digit t" by simp_all
    have "prefix t s" by (simp add: s)
    from digits_prefix_takeWhile[OF dg this]
    have mem: "length t \<in> set (rev [1..<Suc (length (takeWhile is_digit s))])" using ne
      by (cases t) auto
    let ?f = "\<lambda>n. map_option ((#) (take n s)) (match_here as (drop n s))"
    let ?L = "map ?f (rev [1..<Suc (length (takeWhile is_digit s))])"
    from mem have "?f (length t) \<in> ?f ` set (rev [1..<Suc (length (takeWhile is_digit s))])"
      by (rule imageI)
    then have in_L: "?f (length t) \<in> set ?L" by (simp only: set_map)
    have some: "?f (length t) \<noteq> None" using y by simp
    have "first_some ?L \<noteq> None"
    proof
      assume "first_some ?L = None"
      then have "\<forall>x\<in>set ?L. x = None" by (simp only: first_some_None_iff)
      from bspec[OF this in_L] some show False by contradiction
    qed
    then show ?thesis unfolding Digits1 by simp
  next
    case (DigitsN n)
    with at have n: "length t = n" and dg: "list_all is_digit t" by simp_all
    have "n \<le> length s" using len n by simp
    moreover have "list_all is_digit (take n s)" using tk n dg by simp
    moreover have "match_here as (drop n s) = Some y" using y n by simp
    ultimately show ?thesis unfolding DigitsN by simp
  qed
qed

lemma re_search_complete:
  "list_all2 atom_ok p g \<Longrightarrow> sublist (concat g) s \<Longrightarrow> re_search p s \<noteq> None"
proof (induction p s rule: re_search.induct)
  case (1 p)
  then have "prefix (concat g) []" by simp
  from match_here_complete[OF 1(1) this] show ?case by simp
next
  case (2 p c cs)
  show ?case
  proof (cases "match_here p (c # cs)")
    case (Some a)
    then show ?thesis by simp
  next
    case None
    with match_here_complete[OF 2(2), of "c # cs"] have "\<not> prefix (concat g) (c # cs)" by auto
    with 2(3) have "sublist (concat g) cs" by (simp add: sublist_Cons_right)
    with 2(1)[OF None 2(2)] None show ?thesis by simp
  qed
qed

lemma re_search_matches_iff:
  "re_search p s \<noteq> None \<longleftrightarrow> (\<exists>g. list_all2 atom_ok p g \<and> sublist (concat g) s)"
  using re_search_sound[of p s] re_search_complete[of p _ s] by auto

subsection \<open>Decimal rendering is injective\<close>

lemma digit_char_inj: "a < 10 \<Longrightarrow> b < 10 \<Longrightarrow> digit_char a = digit_char b \<Longrightarrow> a = b"
proof -
  assume a: "a < 10" and b: "b < 10" and e: "digit_char a = digit_char b"
  have d: "distinct ''0123456789''" by simp
  have "a < length ''0123456789''" "b < length ''0123456789''" using a b by simp_all
  with d e show "a = b" unfolding digit_char_def by (simp only: nth_eq_iff_index_eq)
qed

lemma str_nat_length: "0 < length (str_nat n)"
  by (subst str_nat.simps) simp

lemma str_nat_length1: "length (str_nat n) = Suc 0 \<longleftrightarrow> n < 10"
proof (cases "n < 10")
  case True
  then show ?thesis by (subst str_nat.simps) simp
next
  case False
  then have "length (str_nat n) = Suc (length (str_nat (n div 10)))"
    by (subst str_nat.simps) simp
  with str_nat_length[of "n div 10"] False show ?thesis by simp
qed

lemma str_nat_inj: "str_nat m = str_nat n \<Longrightarrow> m = n"
proof (induction m arbitrary: n rule: less_induct)
  case (less m)
  show ?case
  proof (cases "m < 10")
    case True
    then have "length (str_nat m) = Suc 0" by (simp add: str_nat_length1)
    with less.prems have n: "n < 10" by (simp add: str_nat_length1)
    from less.prems True n have "digit_char m = digit_char n"
      by (simp add: str_nat.simps[of m] str_nat.simps[of n])
    with True n show ?thesis by (rule digit_char_inj)
  next
    case False
    then have "length (str_nat m) \<noteq> Suc 0" by (simp add: str_nat_length1)
    with less.prems have n: "\<not> n < 10" by (simp add: str_nat_length1)
    from less.prems False n have
      "str_nat (m div 10) @ [digit_char (m mod 10)] = str_nat (n div 10) @ [digit_char (n mod 10)]"
      by (simp add: str_nat.simps[of m] str_nat.simps[of n])
    then have e1: "str_nat (m div 10) = str_nat (n div 10)"
      and e2: "digit_char (m mod 10) = digit_char (n mod 10)" by simp_all
    have "m div 10 < m" using False by simp
    from less.IH[OF this e1] have d: "m div 10 = n div 10" .
    have "m mod 10 = n mod 10" by (rule digit_char_inj[OF _ _ e2]) simp_all
    with d show ?thesis by (metis div_mult_mod_eq)
  qed
qed

subsection \<open>Invariants of the deduplication pass\<close>

lemma update_fresh: "k \<notin> fst ` set al \<Longrightarrow> AList.update k v al = al @ [(k, v)]"
  by (induction al) auto

lemma set_update_subset: "set (AList.update k v al) \<subseteq> insert (k, v) (set al)"
  by (induction al) auto

lemma length_update:
  "length (AList.update k v al) = (if k \<in> fst ` set al then length al else Suc (length al))"
  by (induction al) auto

lemma dedupe_step_cases:
  "dedupe_step seen_ids url = seen_ids \<and> seen_ids \<noteq> []
   \<or> dedupe_step seen_ids url = AList.update (dkey url) (url, dprio url) seen_ids"
  by (cases seen_ids) (auto simp: dedupe_step_def dkey_def dprio_def Let_def split: option.splits)

lemma dedupe_step_ok: "seen_ok seen_ids \<Longrightarrow> seen_ok (dedupe_step seen_ids url)"
proof -
  assume ok: "seen_ok seen_ids"
  have "seen_ok (AList.update (dkey url) (url, dprio url) seen_ids)"
    using ok set_update_subset[of "dkey url" "(url, dprio url)" seen_ids]
    unfolding seen_ok_def list_all_iff
    by (auto simp: distinct_update)
  with ok show ?thesis using dedupe_step_cases[of seen_ids url] by auto
qed

lemma foldl_dedupe_ok: "seen_ok seen_ids \<Longrightarrow> seen_ok (foldl dedupe_step seen_ids urls)"
  by (induction urls arbitrary: seen_ids) (auto simp: dedupe_step_ok)

lemma dedupe_sizes_seen_urls: "dedupe_sizes urls = seen_urls (foldl dedupe_step [] urls)"
  by (simp add: dedupe_sizes_def seen_urls_def case_prod_unfold comp_def)

lemma dedupe_step_urls:
  "set (seen_urls (dedupe_step seen_ids url)) \<subseteq> insert url (set (seen_urls seen_ids))"
  using dedupe_step_cases[of seen_ids url] set_update_subset[of "dkey url" "(url, dprio url)" seen_ids]
  unfolding seen_urls_def by fastforce

lemma foldl_dedupe_urls:
  "set (seen_urls (foldl dedupe_step seen_ids urls)) \<subseteq> set (seen_urls seen_ids) \<union> set urls"
proof (induction urls arbitrary: seen_ids)
  case Nil
  then show ?case by simp
next
  case (Cons u us)
  from Cons[of "dedupe_step seen_ids u"] dedupe_step_urls[of seen_ids u]
  show ?case by auto
qed

lemma dedupe_step_length: "length (dedupe_step seen_ids url) \<le> Suc (length seen_ids)"
  using dedupe_step_cases[of seen_ids url] by (auto simp: length_update)

lemma foldl_dedupe_length:
  "length (foldl dedupe_step seen_ids urls) \<le> length seen_ids + length urls"
proof (induction urls arbitrary: seen_ids)
  case Nil
  then show ?case by simp
next
  case (Cons u us)
  from Cons[of "dedupe_step seen_ids u"] dedupe_step_length[of seen_ids u]
  show ?case by simp
qed

lemma dedupe_step_nonempty: "dedupe_step seen_ids url \<noteq> []"
  using dedupe_step_cases[of seen_ids url] by auto

lemma foldl_dedupe_nonempty: "seen_ids \<noteq> [] \<Longrightarrow> foldl dedupe_step seen_ids urls \<noteq> []"
  by (induction urls arbitrary: seen_ids) (auto simp: dedupe_step_nonempty)

lemma dedupe_sizes_subset: "set (dedupe_sizes urls) \<subseteq> set urls"
  using foldl_dedupe_urls[of "[]" urls] by (simp add: dedupe_sizes_seen_urls seen_urls_def)

lemma dedupe_sizes_length: "length (dedupe_sizes urls) \<le> length urls"
  using foldl_dedupe_length[of "[]" urls] by (simp add: dedupe_sizes_seen_urls seen_urls_def)

lemma dedupe_sizes_nonempty: "urls \<noteq> [] \<Longrightarrow> dedupe_sizes urls \<noteq> []"
  by (cases urls) (auto simp: dedupe_sizes_seen_urls seen_urls_def foldl_dedupe_nonempty dedupe_step_nonempty)

lemma dedupe_step_fresh:
  "dkey url \<notin> fst ` set seen_ids \<Longrightarrow>
   dedupe_step seen_ids url = seen_ids @ [(dkey url, (url, dprio url))]"
proof -
  assume f: "dkey url \<notin> fst ` set seen_ids"
  then have "map_of seen_ids (dkey url) = None" by (simp add: map_of_eq_None_iff)
  then have "dedupe_step seen_ids url = AList.update (dkey url) (url, dprio url) seen_ids"
    by (auto simp: dedupe_step_def dkey_def dprio_def split: option.splits)
  with f show ?thesis by (simp add: update_fresh)
qed

lemma foldl_dedupe_distinct_keys:
  "distinct (map dkey urls) \<Longrightarrow> dkey ` set urls \<inter> fst ` set seen_ids = {} \<Longrightarrow>
   foldl dedupe_step seen_ids urls = seen_ids @ map (\<lambda>u. (dkey u, (u, dprio u))) urls"
proof (induction urls arbitrary: seen_ids)
  case Nil
  then show ?case by simp
next
  case (Cons u us)
  from Cons.prems have f: "dkey u \<notin> fst ` set seen_ids" by auto
  have step: "dedupe_step seen_ids u = seen_ids @ [(dkey u, (u, dprio u))]"
    by (rule dedupe_step_fresh[OF f])
  have "dkey ` set us \<inter> fst ` set (seen_ids @ [(dkey u, (u, dprio u))]) = {}"
    using Cons.prems by auto
  with Cons.IH[of "seen_ids @ [(dkey u, (u, dprio u))]"] Cons.prems step
  show ?case by simp
qed

lemma dedupe_sizes_distinct_keys: "distinct (map dkey urls) \<Longrightarrow> dedupe_sizes urls = urls"
  using foldl_dedupe_distinct_keys[of urls "[]"]
  by (simp add: dedupe_sizes_seen_urls seen_urls_def comp_def)

lemma seen_ok_keys: "seen_ok seen_ids \<Longrightarrow> map dkey (seen_urls seen_ids) = map fst seen_ids"
  unfolding seen_ok_def seen_urls_def list_all_iff by auto

lemma dedupe_sizes_keys_distinct: "distinct (map dkey (dedupe_sizes urls))"
proof -
  have ok: "seen_ok (foldl dedupe_step [] urls)"
    by (rule foldl_dedupe_ok) (simp add: seen_ok_def)
  have "dedupe_sizes urls = seen_urls (foldl dedupe_step [] urls)"
    by (rule dedupe_sizes_seen_urls)
  with seen_ok_keys[OF ok] ok show ?thesis by (simp add: seen_ok_def)
qed

subsection \<open>Invariants of the grouping pass\<close>

lemma pid_not_fallback:
  assumes "post_id u = Some pid"
  shows "\<not> fallback_key pid"
proof
  assume "fallback_key pid"
  then obtain r where r: "pid = ''single_'' @ r" by (auto simp: fallback_key_def prefix_def)
  from post_id_SomeD(2)[OF assms] have "is_digit (hd pid)" using r by simp
  with r show False by (simp add: is_digit_def)
qed

lemma single_fallback: "fallback_key (single_key n)"
  by (simp add: fallback_key_def single_key_def)

lemma single_key_inj: "single_key m = single_key n \<Longrightarrow> m = n"
  by (simp add: single_key_def str_nat_inj)

lemma group_ok_mono:
  assumes "group_ok n g" and "n \<le> m"
  shows "group_ok m g"
proof (cases "fallback_key (fst g)")
  case True
  with assms(1) obtain j u where j: "j < n" "fst g = single_key j"
    and u: "snd g = [u]" "post_id u = None"
    by (auto simp: group_ok_def)
  from j assms(2) have "\<exists>j<m. fst g = single_key j" by (intro exI[of _ j]) simp
  with u True show ?thesis by (simp add: group_ok_def)
next
  case False
  with assms(1) show ?thesis by (simp add: group_ok_def)
qed

lemma single_key_fresh:
  assumes "groups_ok gs"
  shows "single_key (length gs) \<notin> fst ` set gs"
proof
  assume "single_key (length gs) \<in> fst ` set gs"
  then obtain g where g: "g \<in> set gs" and k: "fst g = single_key (length gs)" by auto
  from assms g have "group_ok (length gs) g" by (auto simp: groups_ok_def list_all_iff)
  with k obtain j where j: "j < length gs" and "fst g = single_key j"
    by (auto simp: group_ok_def single_fallback)
  with k have "single_key (length gs) = single_key j" by simp
  from single_key_inj[OF this] j show False by simp
qed

lemma map_entry_fresh_snoc:
  "k \<notin> fst ` set al \<Longrightarrow> AList.map_entry k f (al @ [(k, v)]) = al @ [(k, f v)]"
  by (induction al) auto

lemma group_step_None:
  assumes "groups_ok gs" and "post_id u = None"
  shows "group_step gs u = gs @ [(single_key (length gs), [u])]"
  using assms(2) single_key_fresh[OF assms(1)] by (simp add: group_step_def update_fresh)

lemma group_step_Some_new:
  assumes "post_id u = Some pid" and "pid \<notin> fst ` set gs"
  shows "group_step gs u = gs @ [(pid, [u])]"
  using assms by (simp add: group_step_def update_fresh map_entry_fresh_snoc)

lemma group_step_Some_old:
  assumes "post_id u = Some pid" and "pid \<in> fst ` set gs"
  shows "group_step gs u = AList.map_entry pid (\<lambda>urls. urls @ [u]) gs"
  using assms by (simp add: group_step_def)

lemma map_entry_keys: "map fst (AList.map_entry k f al) = map fst al"
  by (induction al) auto

lemma map_entry_set:
  "e \<in> set (AList.map_entry k f al) \<Longrightarrow> e \<in> set al \<or> (\<exists>v. (k, v) \<in> set al \<and> e = (k, f v))"
  by (induction al) (auto split: if_splits)

lemma map_entry_mset:
  "k \<in> fst ` set al \<Longrightarrow>
   mset (concat (map snd (AList.map_entry k (\<lambda>us. us @ [u]) al))) =
   add_mset u (mset (concat (map snd al)))"
  by (induction al) auto

lemma map_entry_filter:
  "\<not> P k \<Longrightarrow> filter (\<lambda>g. P (fst g)) (AList.map_entry k f al) = filter (\<lambda>g. P (fst g)) al"
  by (induction al) auto

lemma group_step_ok:
  assumes ok: "groups_ok gs"
  shows "groups_ok (group_step gs u)"
proof (cases "post_id u")
  case None
  have "group_ok (Suc (length gs)) (single_key (length gs), [u])"
    using None by (auto simp: group_ok_def single_fallback)
  moreover have "list_all (group_ok (Suc (length gs))) gs"
    using ok by (auto simp: groups_ok_def list_all_iff intro: group_ok_mono)
  ultimately show ?thesis
    using ok single_key_fresh[OF ok] by (simp add: group_step_None[OF ok None] groups_ok_def)
next
  case (Some pid)
  note nf = pid_not_fallback[OF Some]
  show ?thesis
  proof (cases "pid \<in> fst ` set gs")
    case False
    have "group_ok (Suc (length gs)) (pid, [u])"
      using Some nf post_id_SomeD(1,2)[OF Some] by (simp add: group_ok_def)
    moreover have "list_all (group_ok (Suc (length gs))) gs"
      using ok by (auto simp: groups_ok_def list_all_iff intro: group_ok_mono)
    ultimately show ?thesis
      using ok False by (simp add: group_step_Some_new[OF Some False] groups_ok_def)
  next
    case True
    let ?gs' = "AList.map_entry pid (\<lambda>urls. urls @ [u]) gs"
    have len: "length ?gs' = length gs" using map_entry_keys[of pid _ gs] by (metis length_map)
    have "group_ok (length gs) e" if e: "e \<in> set ?gs'" for e
    proof -
      from map_entry_set[OF e] show ?thesis
      proof
        assume "e \<in> set gs"
        with ok show ?thesis by (auto simp: groups_ok_def list_all_iff)
      next
        assume "\<exists>v. (pid, v) \<in> set gs \<and> e = (pid, v @ [u])"
        then obtain v where v: "(pid, v) \<in> set gs" and e': "e = (pid, v @ [u])" by auto
        from ok v have "group_ok (length gs) (pid, v)" by (auto simp: groups_ok_def list_all_iff)
        with nf Some e' show ?thesis by (simp add: group_ok_def)
      qed
    qed
    then show ?thesis
      using ok len by (simp add: group_step_Some_old[OF Some True] groups_ok_def list_all_iff map_entry_keys)
  qed
qed

lemma group_step_mset:
  assumes ok: "groups_ok gs"
  shows "mset (concat (map snd (group_step gs u))) = add_mset u (mset (concat (map snd gs)))"
proof (cases "post_id u")
  case None
  then show ?thesis by (simp add: group_step_None[OF ok None])
next
  case (Some pid)
  then show ?thesis
    by (cases "pid \<in> fst ` set gs")
       (simp_all add: group_step_Some_new group_step_Some_old map_entry_mset)
qed

lemma group_step_fallback:
  assumes ok: "groups_ok gs"
  shows "map snd (filter (\<lambda>g. fallback_key (fst g)) (group_step gs u)) =
         map snd (filter (\<lambda>g. fallback_key (fst g)) gs) @ (if post_id u = None then [[u]] else [])"
proof (cases "post_id u")
  case None
  then show ?thesis by (simp add: group_step_None[OF ok None] single_fallback)
next
  case (Some pid)
  note nf = pid_not_fallback[OF Some]
  show ?thesis
  proof (cases "pid \<in> fst ` set gs")
    case True
    then show ?thesis
      using Some map_entry_filter[of fallback_key pid _ gs, OF nf]
      by (simp add: group_step_Some_old[OF Some True])
  next
    case False
    then show ?thesis using Some nf by (simp add: group_step_Some_new[OF Some False])
  qed
qed

lemma build_groups_snoc: "build_groups (images @ [u]) = group_step (build_groups images) u"
  by (simp add: build_groups_def)

lemma build_groups_ok: "groups_ok (build_groups images)"
proof (induction images rule: rev_induct)
  case Nil
  then show ?case by (simp add: build_groups_def groups_ok_def)
next
  case (snoc u images)
  then show ?case by (simp add: build_groups_snoc group_step_ok)
qed

lemma build_groups_mset: "mset (concat (map snd (build_groups images))) = mset images"
proof (induction images rule: rev_induct)
  case Nil
  then show ?case by (simp add: build_groups_def)
next
  case (snoc u images)
  then show ?case by (simp add: build_groups_snoc group_step_mset[OF build_groups_ok])
qed

lemma build_groups_fallback:
  "map snd (filter (\<lambda>g. fallback_key (fst g)) (build_groups images)) =
   map (\<lambda>u. [u]) (filter (\<lambda>u. post_id u = None) images)"
proof (induction images rule: rev_induct)
  case Nil
  then show ?case by (simp add: build_groups_def)
next
  case (snoc u images)
  then show ?case by (simp add: build_groups_snoc group_step_fallback[OF build_groups_ok])
qed

subsection \<open>C6: deduplication is idempotent\<close>

text \<open>
  Claim C6. For every list of URLs, running \<^verbatim>\<open>dedupe_sizes\<close> on its own output
  returns that output again: the very same list, hence the same set of URLs.
\<close>

theorem dedupe_sizes_idempotent:
  "dedupe_sizes (dedupe_sizes urls) = dedupe_sizes urls
   \<and> set (dedupe_sizes (dedupe_sizes urls)) = set (dedupe_sizes urls)"
  using dedupe_sizes_distinct_keys[OF dedupe_sizes_keys_distinct[of urls]] by simp

subsection \<open>From groups to Posts\<close>

lemma collect_posts_eq:
  "collect_posts gs = filter (\<lambda>p. p \<noteq> []) (map (\<lambda>g. dedupe_sizes (snd g)) gs)"
  by (induction gs rule: collect_posts.induct) (simp_all add: Let_def)

lemma groups_ok_nonempty: "groups_ok gs \<Longrightarrow> g \<in> set gs \<Longrightarrow> snd g \<noteq> []"
  by (auto simp: groups_ok_def list_all_iff group_ok_def split: if_splits)

lemma group_images_eq:
  "group_images images = map (\<lambda>g. dedupe_sizes (snd g)) (build_groups images)"
proof -
  have "\<forall>p \<in> set (map (\<lambda>g. dedupe_sizes (snd g)) (build_groups images)). p \<noteq> []"
    using groups_ok_nonempty[OF build_groups_ok] by (auto simp: dedupe_sizes_nonempty)
  then show ?thesis by (simp add: group_images_def collect_posts_eq)
qed

lemma count_concat_one:
  "count (mset (concat xss)) u = 1 \<Longrightarrow> length (filter (\<lambda>xs. u \<in> set xs) xss) = 1"
proof (induction xss)
  case Nil
  then show ?case by simp
next
  case (Cons xs xss)
  show ?case
  proof (cases "u \<in> set xs")
    case True
    then have pos: "count (mset xs) u > 0" by (rule count_mset_gt_0)
    have "count (mset xs) u + count (mset (concat xss)) u = 1" using Cons.prems by simp
    with pos have "count (mset (concat xss)) u = 0" by linarith
    then have "u \<notin> set (concat xss)" by simp
    then have "filter (\<lambda>xs. u \<in> set xs) xss = []" by (auto simp: filter_empty_conv)
    with True show ?thesis by simp
  next
    case False
    then have "count (mset xs) u = 0" by simp
    with Cons.prems have "count (mset (concat xss)) u = 1" by simp
    with Cons.IH False show ?thesis by simp
  qed
qed

lemma pid_not_single: "post_id u = Some pid \<Longrightarrow> pid \<noteq> single_key n"
  using pid_not_fallback[of u pid] single_fallback[of n] by auto

subsection \<open>C3: the groups partition the input\<close>

text \<open>
  Claim C3. For every input list with distinct elements, the groups that
  \<^verbatim>\<open>group_images\<close> builds before deduplication partition the input: the URLs of all
  groups together are exactly the input URLs, no URL occurs twice, and every input URL lies
  in exactly one group. The fallback keys collide neither with each other nor with a
  PostID: the dictionary's keys are distinct, the groups filed under fallback keys are, in
  input order, one singleton for each URL that the grouping pattern does not match, every
  other key consists of nine digits, and no PostID is ever equal to a fallback key.
\<close>

theorem build_groups_partition:
  assumes "distinct images"
  shows "set (concat (map snd (build_groups images))) = set images
       \<and> distinct (concat (map snd (build_groups images)))
       \<and> (\<forall>u\<in>set images. length (filter (\<lambda>g. u \<in> set (snd g)) (build_groups images)) = 1)
       \<and> distinct (map fst (build_groups images))
       \<and> map snd (filter (\<lambda>g. fallback_key (fst g)) (build_groups images)) =
           map (\<lambda>u. [u]) (filter (\<lambda>u. post_id u = None) images)
       \<and> (\<forall>g\<in>set (build_groups images).
             if fallback_key (fst g) then \<exists>j<length (build_groups images). fst g = single_key j
             else length (fst g) = 9 \<and> list_all is_digit (fst g))
       \<and> (\<forall>u pid n. post_id u = Some pid \<longrightarrow> pid \<noteq> single_key n)"
proof -
  let ?gs = "build_groups images"
  have m: "mset (concat (map snd ?gs)) = mset images" by (rule build_groups_mset)
  have 1: "set (concat (map snd ?gs)) = set images" by (rule mset_eq_setD[OF m])
  have 2: "distinct (concat (map snd ?gs))"
    using mset_eq_imp_distinct_iff[OF m] assms by simp
  have 3: "length (filter (\<lambda>g. u \<in> set (snd g)) ?gs) = 1" if u: "u \<in> set images" for u
  proof -
    have "count (mset images) u = 1" using assms u by (simp add: distinct_count_atmost_1)
    then have "count (mset (concat (map snd ?gs))) u = 1" by (simp add: m)
    from count_concat_one[OF this] show ?thesis by (simp add: filter_map comp_def)
  qed
  have ok: "groups_ok ?gs" by (rule build_groups_ok)
  have 4: "distinct (map fst ?gs)" using ok by (simp add: groups_ok_def)
  have 6: "if fallback_key (fst g) then \<exists>j<length ?gs. fst g = single_key j
           else length (fst g) = 9 \<and> list_all is_digit (fst g)" if "g \<in> set ?gs" for g
    using ok that by (auto simp: groups_ok_def list_all_iff group_ok_def)
  show ?thesis using 1 2 3 4 6 build_groups_fallback[of images] pid_not_single by blast
qed


theorem build_groups_partition_witness:
  "distinct [''abc'', ''/1_123456789'', ''/2_123456789x'', ''q'']
   \<and> set (concat (map snd (build_groups [''abc'', ''/1_123456789'', ''/2_123456789x'', ''q''])))
       = set [''abc'', ''/1_123456789'', ''/2_123456789x'', ''q'']
   \<and> distinct (concat (map snd (build_groups [''abc'', ''/1_123456789'', ''/2_123456789x'', ''q''])))
   \<and> build_groups [''abc'', ''/1_123456789'', ''/2_123456789x'', ''q''] =
       [(''single_0'', [''abc'']), (''123456789'', [''/1_123456789'', ''/2_123456789x'']),
        (''single_2'', [''q''])]"
proof -
  have d: "distinct [''abc'', ''/1_123456789'', ''/2_123456789x'', ''q'']" by simp
  have e: "build_groups [''abc'', ''/1_123456789'', ''/2_123456789x'', ''q''] =
       [(''single_0'', [''abc'']), (''123456789'', [''/1_123456789'', ''/2_123456789x'']),
        (''single_2'', [''q''])]" by code_simp
  from build_groups_partition[OF d] d e show ?thesis by blast
qed

subsection \<open>C9: every Post is non-empty\<close>

text \<open>
  Claim C9. For every input list, each Post returned by \<^verbatim>\<open>group_images\<close> holds at
  least one URL. The test that would omit an empty Post never fires: every group is
  non-empty, deduplication of a non-empty group is non-empty, and so there are exactly as
  many Posts as groups.
\<close>

theorem group_images_posts_nonempty:
  "(\<forall>p\<in>set (group_images images). p \<noteq> [])
   \<and> length (group_images images) = length (build_groups images)
   \<and> (\<forall>g\<in>set (build_groups images). snd g \<noteq> [] \<and> dedupe_sizes (snd g) \<noteq> [])
   \<and> (urls \<noteq> [] \<longrightarrow> dedupe_sizes urls \<noteq> [])"
proof -
  have ne: "snd g \<noteq> [] \<and> dedupe_sizes (snd g) \<noteq> []" if "g \<in> set (build_groups images)" for g
    using groups_ok_nonempty[OF build_groups_ok that] by (simp add: dedupe_sizes_nonempty)
  then show ?thesis by (auto simp: group_images_eq dedupe_sizes_nonempty)
qed

theorem group_images_posts_nonempty_witness:
  "group_images [''abc'', ''/1_123456789'', ''/2_123456789x''] =
     [[''abc''], [''/1_123456789'', ''/2_123456789x'']]
   \<and> [''abc''] \<noteq> [] \<and> [''/1_123456789'', ''/2_123456789x''] \<noteq> []
   \<and> length (build_groups [''abc'', ''/1_123456789'', ''/2_123456789x'']) = 2"
proof -
  have e: "group_images [''abc'', ''/1_123456789'', ''/2_123456789x''] =
     [[''abc''], [''/1_123456789'', ''/2_123456789x'']]" by code_simp
  from group_images_posts_nonempty
         [where images = "[''abc'', ''/1_123456789'', ''/2_123456789x'']" and urls = "[''abc'']"] e
  show ?thesis by simp
qed

subsection \<open>Lengths of concatenations\<close>

lemma length_concat_map_le:
  "(\<And>x. x \<in> set xs \<Longrightarrow> length (f x) \<le> length (g x)) \<Longrightarrow>
   length (concat (map f xs)) \<le> length (concat (map g xs))"
  by (induction xs) (auto intro: add_mono)

subsection \<open>C10: the grouper returns only URLs of its input\<close>

text \<open>
  Claim C10. For every input list, every URL in every Post of the output of
  \<^verbatim>\<open>group_images\<close> is an element of the input list, unchanged, and the Posts hold
  together at most as many URLs as the input has elements.
\<close>

theorem group_images_only_input_urls:
  "(\<forall>p\<in>set (group_images images). \<forall>u\<in>set p. u \<in> set images)
   \<and> length (concat (group_images images)) \<le> length images"
proof -
  let ?gs = "build_groups images"
  have m: "mset (concat (map snd ?gs)) = mset images" by (rule build_groups_mset)
  have s: "set (concat (map snd ?gs)) = set images" by (rule mset_eq_setD[OF m])
  have l: "length (concat (map snd ?gs)) = length images" by (rule mset_eq_length[OF m])
  have "u \<in> set images" if p: "p \<in> set (group_images images)" and u: "u \<in> set p" for p u
  proof -
    from p obtain g where g: "g \<in> set ?gs" and "p = dedupe_sizes (snd g)"
      by (auto simp: group_images_eq)
    with u dedupe_sizes_subset[of "snd g"] have "u \<in> set (snd g)" by auto
    with g have "u \<in> set (concat (map snd ?gs))" by auto
    with s show ?thesis by simp
  qed
  moreover have "length (concat (map (\<lambda>g. dedupe_sizes (snd g)) ?gs)) \<le> length (concat (map snd ?gs))"
    by (rule length_concat_map_le) (rule dedupe_sizes_length)
  ultimately show ?thesis using l by (auto simp: group_images_eq)
qed

theorem group_images_only_input_urls_witness:
  "group_images [''/1_123456789_3_n.jpg'', ''/1_123456789_3_n_s150x150.jpg'', ''xyz''] =
     [[''/1_123456789_3_n.jpg''], [''xyz'']]
   \<and> ''/1_123456789_3_n.jpg'' \<in> set [''/1_123456789_3_n.jpg'', ''/1_123456789_3_n_s150x150.jpg'', ''xyz'']
   \<and> ''xyz'' \<in> set [''/1_123456789_3_n.jpg'', ''/1_123456789_3_n_s150x150.jpg'', ''xyz'']
   \<and> length (concat (group_images [''/1_123456789_3_n.jpg'', ''/1_123456789_3_n_s150x150.jpg'', ''xyz'']))
       \<le> length [''/1_123456789_3_n.jpg'', ''/1_123456789_3_n_s150x150.jpg'', ''xyz'']"
proof -
  have e: "group_images [''/1_123456789_3_n.jpg'', ''/1_123456789_3_n_s150x150.jpg'', ''xyz''] =
     [[''/1_123456789_3_n.jpg''], [''xyz'']]" by code_simp
  from group_images_only_input_urls
         [of "[''/1_123456789_3_n.jpg'', ''/1_123456789_3_n_s150x150.jpg'', ''xyz'']"] e
  show ?thesis by simp
qed

subsection \<open>Posts that hold an unmatched URL\<close>

lemma dedupe_sizes_single: "dedupe_sizes [u] = [u]"
  by (rule dedupe_sizes_distinct_keys) simp



subsection \<open>C4: a URL that no pattern matches is never lost\<close>




subsection \<open>Ties between size variants\<close>









subsection \<open>C2: on a tie the earlier URL stays\<close>




subsection \<open>A group with one canonical identifier\<close>

lemma foldl_same_id:
  assumes "\<forall>u\<in>set xs. img_id u = Some k"
    and "\<forall>u\<in>set xs. u \<noteq> w \<longrightarrow> size_priority u < size_priority w"
  shows "(xs = [] \<and> foldl dedupe_step [] xs = [])
       \<or> (\<exists>x\<in>set xs. foldl dedupe_step [] xs = [(k, (x, size_priority x))]
             \<and> (w \<in> set xs \<longrightarrow> x = w))"
  using assms
proof (induction xs rule: rev_induct)
  case Nil
  then show ?case by simp
next
  case (snoc y xs)
  from snoc.prems have idy: "img_id y = Some k" by simp
  from snoc.prems have pr: "\<forall>u\<in>set xs. u \<noteq> w \<longrightarrow> size_priority u < size_priority w"
    and pry: "y \<noteq> w \<longrightarrow> size_priority y < size_priority w" by simp_all
  from snoc.IH snoc.prems
  have IH: "(xs = [] \<and> foldl dedupe_step [] xs = [])
       \<or> (\<exists>x\<in>set xs. foldl dedupe_step [] xs = [(k, (x, size_priority x))]
             \<and> (w \<in> set xs \<longrightarrow> x = w))" by simp
  then show ?case
  proof
    assume "xs = [] \<and> foldl dedupe_step [] xs = []"
    then show ?thesis using idy by (simp add: dedupe_step_def)
  next
    assume "\<exists>x\<in>set xs. foldl dedupe_step [] xs = [(k, (x, size_priority x))]
             \<and> (w \<in> set xs \<longrightarrow> x = w)"
    then obtain x where x: "x \<in> set xs"
      and S: "foldl dedupe_step [] xs = [(k, (x, size_priority x))]"
      and xw: "w \<in> set xs \<longrightarrow> x = w" by blast
    show ?thesis
    proof (cases "size_priority y > size_priority x")
      case True
      then have S': "foldl dedupe_step [] (xs @ [y]) = [(k, (y, size_priority y))]"
        using S idy by (simp add: dedupe_step_def)
      have "y = w" if "w \<in> set (xs @ [y])"
      proof (rule ccontr)
        assume ny: "y \<noteq> w"
        with that have "w \<in> set xs" by simp
        with xw have "x = w" by simp
        with True pry ny show False by simp
      qed
      with S' show ?thesis by simp
    next
      case False
      then have S': "foldl dedupe_step [] (xs @ [y]) = [(k, (x, size_priority x))]"
        using S idy by (simp add: dedupe_step_def)
      have "x = w" if "w \<in> set (xs @ [y])"
      proof (rule ccontr)
        assume nx: "x \<noteq> w"
        with xw have "w \<notin> set xs" by auto
        with that have "y = w" by simp
        moreover from pr x nx have "size_priority x < size_priority w" by simp
        ultimately show False using False by simp
      qed
      with S' x show ?thesis by simp
    qed
  qed
qed

lemma dedupe_same_id_winner:
  assumes "\<forall>u\<in>set urls. img_id u = Some k" and "w \<in> set urls"
    and "\<forall>u\<in>set urls. u \<noteq> w \<longrightarrow> size_priority u < size_priority w"
  shows "dedupe_sizes urls = [w]"
proof -
  from foldl_same_id[OF assms(1,3)] assms(2)
  have "foldl dedupe_step [] urls = [(k, (w, size_priority w))]" by auto
  then show ?thesis by (simp add: dedupe_sizes_def)
qed

subsection \<open>C5: the full-resolution variant is the one kept\<close>

text \<open>
  Claim C5. Given four URLs with the same canonical identifier, the first containing the
  marker \<^verbatim>\<open>s150x150\<close>, the second \<^verbatim>\<open>s320x320\<close>, the third \<^verbatim>\<open>s640x640\<close> and the
  fourth none of the three, \<^verbatim>\<open>dedupe_sizes\<close> applied to the four, in any order,
  returns exactly the fourth.
\<close>

theorem dedupe_keeps_full_resolution:
  assumes "img_id u1 = Some k" and "img_id u2 = Some k"
    and "img_id u3 = Some k" and "img_id u4 = Some k"
    and "contains ''s150x150'' u1" and "contains ''s320x320'' u2"
    and "contains ''s640x640'' u3"
    and "\<not> contains ''s150x150'' u4" and "\<not> contains ''s320x320'' u4"
    and "\<not> contains ''s640x640'' u4"
    and "mset urls = {#u1, u2, u3, u4#}"
  shows "dedupe_sizes urls = [u4]"
proof -
  have "set_mset (mset urls) = set_mset {#u1, u2, u3, u4#}" using assms(11) by simp
  then have s: "set urls = {u1, u2, u3, u4}" by simp
  have p4: "size_priority u4 = 4" using assms(8-10) by (simp add: size_priority_def)
  have p1: "size_priority u1 < 4" using assms(5) by (simp add: size_priority_def)
  have p2: "size_priority u2 < 4" using assms(6) by (simp add: size_priority_def)
  have p3: "size_priority u3 < 4" using assms(7) by (simp add: size_priority_def)
  show ?thesis
  proof (rule dedupe_same_id_winner[where k = k])
    show "\<forall>u\<in>set urls. img_id u = Some k" using s assms(1-4) by auto
    show "u4 \<in> set urls" using s by simp
    show "\<forall>u\<in>set urls. u \<noteq> u4 \<longrightarrow> size_priority u < size_priority u4"
      using s p1 p2 p3 p4 by auto
  qed
qed

theorem dedupe_keeps_full_resolution_witness:
  "img_id ''/1_2_3_n_s150x150.jpg'' = Some ''1_2_3_n''
   \<and> img_id ''/1_2_3_n_s320x320.jpg'' = Some ''1_2_3_n''
   \<and> img_id ''/1_2_3_n_s640x640.jpg'' = Some ''1_2_3_n''
   \<and> img_id ''/1_2_3_n.jpg'' = Some ''1_2_3_n''
   \<and> contains ''s150x150'' ''/1_2_3_n_s150x150.jpg''
   \<and> contains ''s320x320'' ''/1_2_3_n_s320x320.jpg''
   \<and> contains ''s640x640'' ''/1_2_3_n_s640x640.jpg''
   \<and> \<not> contains ''s150x150'' ''/1_2_3_n.jpg''
   \<and> \<not> contains ''s320x320'' ''/1_2_3_n.jpg''
   \<and> \<not> contains ''s640x640'' ''/1_2_3_n.jpg''
   \<and> dedupe_sizes [''/1_2_3_n_s640x640.jpg'', ''/1_2_3_n.jpg'', ''/1_2_3_n_s150x150.jpg'',
                    ''/1_2_3_n_s320x320.jpg''] = [''/1_2_3_n.jpg'']"
proof -
  let ?u1 = "''/1_2_3_n_s150x150.jpg''" and ?u2 = "''/1_2_3_n_s320x320.jpg''"
  let ?u3 = "''/1_2_3_n_s640x640.jpg''" and ?u4 = "''/1_2_3_n.jpg''"
  have i1: "img_id ?u1 = Some ''1_2_3_n''" by code_simp
  have i2: "img_id ?u2 = Some ''1_2_3_n''" by code_simp
  have i3: "img_id ?u3 = Some ''1_2_3_n''" by code_simp
  have i4: "img_id ?u4 = Some ''1_2_3_n''" by code_simp
  have c1: "contains ''s150x150'' ?u1" by code_simp
  have c2: "contains ''s320x320'' ?u2" by code_simp
  have c3: "contains ''s640x640'' ?u3" by code_simp
  have n1: "\<not> contains ''s150x150'' ?u4" by code_simp
  have n2: "\<not> contains ''s320x320'' ?u4" by code_simp
  have n3: "\<not> contains ''s640x640'' ?u4" by code_simp
  have m: "mset [?u3, ?u4, ?u1, ?u2] = {#?u1, ?u2, ?u3, ?u4#}" by simp
  from dedupe_keeps_full_resolution[OF i1 i2 i3 i4 c1 c2 c3 n1 n2 n3 m]
  show ?thesis using i1 i2 i3 i4 c1 c2 c3 n1 n2 n3 by simp
qed

subsection \<open>The scroll loop, one iteration at a time\<close>

lemma scroll_step_same:
  assumes "counts_ok st" and "set (page i) \<subseteq> all_images st"
  shows "scroll_loop page (i # rest) st =
     (if 4 \<le> no_new_count st
      then st\<lparr>iterations := Suc (iterations st), no_new_count := Suc (no_new_count st),
              stopped := True\<rparr>
      else scroll_loop page rest
             (st\<lparr>iterations := Suc (iterations st), no_new_count := Suc (no_new_count st),
                 scrolls := Suc (scrolls st)\<rparr>))"
proof -
  have un: "all_images st \<union> set (page i) = all_images st" using assms(2) by auto
  have lc: "card (all_images st) = last_count st" using assms(1) by (simp add: counts_ok_def)
  show ?thesis by (simp add: Let_def un lc)
qed




lemma stagnant_run:
  assumes "counts_ok st" and "\<forall>i\<in>set xs. set (page i) \<subseteq> all_images st"
    and "no_new_count st + length xs \<le> 4"
  shows "scroll_loop page (xs @ rest) st =
         scroll_loop page rest
           (st\<lparr>iterations := iterations st + length xs,
               no_new_count := no_new_count st + length xs,
               scrolls := scrolls st + length xs\<rparr>)"
  using assms
proof (induction xs arbitrary: st)
  case Nil
  then show ?case by simp
next
  case (Cons i xs)
  let ?st' = "st\<lparr>iterations := Suc (iterations st), no_new_count := Suc (no_new_count st),
               scrolls := Suc (scrolls st)\<rparr>"
  have sub: "set (page i) \<subseteq> all_images st" using Cons.prems(2) by simp
  have n4: "\<not> 4 \<le> no_new_count st" using Cons.prems(3) by simp
  have eq: "scroll_loop page ((i # xs) @ rest) st = scroll_loop page (xs @ rest) ?st'"
    using n4 scroll_step_same[where page = page and rest = "xs @ rest", OF Cons.prems(1) sub] by simp
  have "counts_ok ?st'" using Cons.prems(1) by (simp add: counts_ok_def)
  moreover have "\<forall>i\<in>set xs. set (page i) \<subseteq> all_images ?st'" using Cons.prems(2) by simp
  moreover have "no_new_count ?st' + length xs \<le> 4" using Cons.prems(3) by simp
  ultimately have "scroll_loop page (xs @ rest) ?st' =
         scroll_loop page rest
           (?st'\<lparr>iterations := iterations ?st' + length xs,
               no_new_count := no_new_count ?st' + length xs,
               scrolls := scrolls ?st' + length xs\<rparr>)"
    by (rule Cons.IH)
  with eq show ?case by simp
qed


lemma init_counts_ok: "counts_ok init_collector \<and> \<not> stopped init_collector"
  by (simp add: counts_ok_def init_collector_def)

text \<open>
  The run in which the set never grows: five empty batches from the start end the loop in
  iteration 4, after five iterations and four scroll commands.
\<close>

lemma collector_nothing_found:
  assumes "5 \<le> max_scrolls" and "\<forall>i<5. page i = []"
  shows "stopped (collect page max_scrolls)
       \<and> iterations (collect page max_scrolls) = 5
       \<and> scrolls (collect page max_scrolls) = 4
       \<and> all_images (collect page max_scrolls) = {}"
proof -
  let ?N = "nat max_scrolls"
  have N: "5 \<le> ?N" using assms(1) by simp
  have ok0: "counts_ok init_collector" using init_counts_ok by simp
  have split: "[0..<?N] = [0..<4] @ 4 # [5..<?N]"
  proof -
    have "[0..<4 + (?N - 4)] = [0..<4] @ [4..<4 + (?N - 4)]" by (rule upt_add_eq_append) simp
    moreover have "4 + (?N - 4) = ?N" using N by simp
    ultimately have "[0..<?N] = [0..<4] @ [4..<?N]" by simp
    also have "[4..<?N] = 4 # [5..<?N]" using N by (simp add: upt_conv_Cons)
    finally show ?thesis .
  qed
  have st: "\<forall>i\<in>set [0..<4]. set (page i) \<subseteq> all_images init_collector"
    using assms(2) by simp
  let ?s4 = "init_collector\<lparr>iterations := iterations init_collector + length [0..<4],
               no_new_count := no_new_count init_collector + length [0..<4],
               scrolls := scrolls init_collector + length [0..<4]\<rparr>"
  have "collect page max_scrolls = scroll_loop page ([0..<4] @ 4 # [5..<?N]) init_collector"
    by (simp only: collect_def split)
  also have "\<dots> = scroll_loop page (4 # [5..<?N]) ?s4"
    by (rule stagnant_run[where page = page, OF ok0 st]) (simp add: init_collector_def)
  also have "\<dots> = ?s4\<lparr>iterations := Suc (iterations ?s4), no_new_count := Suc (no_new_count ?s4),
              stopped := True\<rparr>"
  proof -
    have ok4: "counts_ok ?s4" using ok0 by (simp add: counts_ok_def)
    have sub4: "set (page 4) \<subseteq> all_images ?s4" using assms(2) by simp
    have "4 \<le> no_new_count ?s4" by (simp add: init_collector_def)
    then show ?thesis
      using scroll_step_same[where page = page and rest = "[5..<?N]", OF ok4 sub4] by simp
  qed
  finally show ?thesis by (simp add: init_collector_def)
qed

subsection \<open>C7: the collector stops at the fifth iteration without growth\<close>




subsection \<open>C8: the fields of the result\<close>

text \<open>
  Claim C8, as amended. The result dictionary that \<^verbatim>\<open>scrape_threads\<close> serializes has
  exactly five top-level fields, in this order: \<^verbatim>\<open>username\<close> (the source identifier),
  \<^verbatim>\<open>scraped_at\<close> (the string the clock returned), \<^verbatim>\<open>total_images\<close> (the number of
  collected URLs), \<^verbatim>\<open>total_posts\<close> (the number of Posts) and \<^verbatim>\<open>posts\<close> (the Posts,
  each a list of URLs).
\<close>

theorem scrape_result_fields:
  "map fst (scrape_result username now images) =
     [''username'', ''scraped_at'', ''total_images'', ''total_posts'', ''posts'']
   \<and> length (scrape_result username now images) = 5
   \<and> distinct (map fst (scrape_result username now images))
   \<and> map snd (scrape_result username now images) =
       [JString username, JString now, JInt (int (card (set images))),
        JInt (int (length (group_images images))),
        JArray (map (\<lambda>p. JArray (map JString p)) (group_images images))]"
  by (simp add: scrape_result_def Let_def)

text \<open>The claim as stated counts four fields; the dictionary has five.\<close>

theorem scrape_result_fields_counterexample:
  "length (scrape_result ''someone'' ''2024-05-01T12:00:00.000000'' [''abc'']) = 5"
  by (simp add: scrape_result_def Let_def)

subsection \<open>Searching past a prefix\<close>

lemma match_here_slash_digits_None:
  assumes "c \<noteq> CHR ''/'' \<or> s = [] \<or> \<not> is_digit (hd s)"
  shows "match_here (Lit CHR ''/'' # Digits1 # rest) (c # s) = None"
proof (cases "c = CHR ''/''")
  case False
  then show ?thesis by simp
next
  case True
  with assms have "takeWhile is_digit s = []" by (cases s) auto
  then show ?thesis by simp
qed

lemma re_search_skip_prefix:
  assumes "slash_digit_free p" and "s = [] \<or> \<not> is_digit (hd s)"
  shows "re_search (Lit CHR ''/'' # Digits1 # rest) (p @ s) =
         re_search (Lit CHR ''/'' # Digits1 # rest) s"
  using assms
proof (induction p rule: slash_digit_free.induct)
  case 1
  then show ?case by simp
next
  case (2 a)
  then have "a \<noteq> CHR ''/'' \<or> s = [] \<or> \<not> is_digit (hd s)" by simp
  then have "match_here (Lit CHR ''/'' # Digits1 # rest) (a # s) = None"
    by (rule match_here_slash_digits_None)
  then show ?case by simp
next
  case (3 a b cs)
  then have "a \<noteq> CHR ''/'' \<or> b # cs @ s = [] \<or> \<not> is_digit (hd (b # cs @ s))" by auto
  then have "match_here (Lit CHR ''/'' # Digits1 # rest) (a # (b # cs @ s)) = None"
    by (rule match_here_slash_digits_None)
  moreover have "re_search (Lit CHR ''/'' # Digits1 # rest) ((b # cs) @ s) =
         re_search (Lit CHR ''/'' # Digits1 # rest) s"
    using 3 by simp
  ultimately show ?case by simp
qed

lemma post_id_skip_prefix:
  "slash_digit_free p \<Longrightarrow> post_id (p @ CHR ''/'' # s) = post_id (CHR ''/'' # s)"
  unfolding post_id_def post_pattern_def
  by (subst re_search_skip_prefix) (simp_all add: is_digit_def)

lemma img_id_skip_prefix:
  "slash_digit_free p \<Longrightarrow> img_id (p @ CHR ''/'' # s) = img_id (CHR ''/'' # s)"
  unfolding img_id_def img_pattern_def
  by (subst re_search_skip_prefix) (simp_all add: is_digit_def)

subsection \<open>C1: the end-to-end example\<close>

text \<open>
  Claim C1, as amended. Let the three URLs of the example share a prefix \<open>p\<close> in which no
  slash is immediately followed by a digit, and end in \<^verbatim>\<open>/111_123456789_n.jpg\<close>,
  \<^verbatim>\<open>/111_123456789_n_s150x150.jpg\<close> and \<^verbatim>\<open>/222_987654321_n.jpg\<close>. Then
  \<^verbatim>\<open>group_images\<close> returns exactly two Posts: the first holds both URLs of PostID
  123456789, the full-resolution one and its \<^verbatim>\<open>s150x150\<close> variant, and the second
  holds the URL of PostID 987654321. The variant is not dropped: the URLs have two numeric
  runs before \<^verbatim>\<open>_n\<close>, the canonical-identifier pattern needs three, so each URL is
  filed under itself.
\<close>

theorem end_to_end_example:
  assumes "slash_digit_free p"
  shows "group_images
           [p @ ''/111_123456789_n.jpg'', p @ ''/111_123456789_n_s150x150.jpg'',
            p @ ''/222_987654321_n.jpg''] =
         [[p @ ''/111_123456789_n.jpg'', p @ ''/111_123456789_n_s150x150.jpg''],
          [p @ ''/222_987654321_n.jpg'']]"
proof -
  let ?u1 = "p @ ''/111_123456789_n.jpg''" and ?u2 = "p @ ''/111_123456789_n_s150x150.jpg''"
  let ?u3 = "p @ ''/222_987654321_n.jpg''"
  have "post_id ''/111_123456789_n.jpg'' = Some ''123456789''" by code_simp
  then have p1: "post_id ?u1 = Some ''123456789''"
    using post_id_skip_prefix[OF assms, of "''111_123456789_n.jpg''"] by simp
  have "post_id ''/111_123456789_n_s150x150.jpg'' = Some ''123456789''" by code_simp
  then have p2: "post_id ?u2 = Some ''123456789''"
    using post_id_skip_prefix[OF assms, of "''111_123456789_n_s150x150.jpg''"] by simp
  have "post_id ''/222_987654321_n.jpg'' = Some ''987654321''" by code_simp
  then have p3: "post_id ?u3 = Some ''987654321''"
    using post_id_skip_prefix[OF assms, of "''222_987654321_n.jpg''"] by simp
  have "img_id ''/111_123456789_n.jpg'' = None" by code_simp
  then have i1: "img_id ?u1 = None"
    using img_id_skip_prefix[OF assms, of "''111_123456789_n.jpg''"] by simp
  have "img_id ''/111_123456789_n_s150x150.jpg'' = None" by code_simp
  then have i2: "img_id ?u2 = None"
    using img_id_skip_prefix[OF assms, of "''111_123456789_n_s150x150.jpg''"] by simp
  have g: "build_groups [?u1, ?u2, ?u3] =
      [(''123456789'', [?u1, ?u2]), (''987654321'', [?u3])]"
    unfolding build_groups_def by (simp add: group_step_def p1 p2 p3 del: append.simps)
  have "distinct (map dkey [?u1, ?u2])" using i1 i2 by (simp add: dkey_def)
  then have d12: "dedupe_sizes [?u1, ?u2] = [?u1, ?u2]" by (rule dedupe_sizes_distinct_keys)
  have d3: "dedupe_sizes [?u3] = [?u3]" by (rule dedupe_sizes_single)
  show ?thesis unfolding group_images_def g by (simp add: d12 d3 del: append.simps)
qed


theorem end_to_end_example_witness:
  "slash_digit_free ''https://cdn.example.com/v/t51.2885-15''
   \<and> group_images
        [''https://cdn.example.com/v/t51.2885-15/111_123456789_n.jpg'',
         ''https://cdn.example.com/v/t51.2885-15/111_123456789_n_s150x150.jpg'',
         ''https://cdn.example.com/v/t51.2885-15/222_987654321_n.jpg''] =
       [[''https://cdn.example.com/v/t51.2885-15/111_123456789_n.jpg'',
         ''https://cdn.example.com/v/t51.2885-15/111_123456789_n_s150x150.jpg''],
        [''https://cdn.example.com/v/t51.2885-15/222_987654321_n.jpg'']]"
proof -
  have h: "slash_digit_free ''https://cdn.example.com/v/t51.2885-15''"
    by (simp add: is_digit_def)
  from end_to_end_example[OF h] h show ?thesis by simp
qed

text \<open>
  The claim as stated has the thumbnail variant dropped from the first Post; on the
  example with a concrete prefix the variant is still there.
\<close>

theorem end_to_end_example_counterexample:
  "group_images
     [''https://scontent.cdninstagram.com/v/111_123456789_n.jpg'',
      ''https://scontent.cdninstagram.com/v/111_123456789_n_s150x150.jpg'',
      ''https://scontent.cdninstagram.com/v/222_987654321_n.jpg''] =
   [[''https://scontent.cdninstagram.com/v/111_123456789_n.jpg'',
     ''https://scontent.cdninstagram.com/v/111_123456789_n_s150x150.jpg''],
    [''https://scontent.cdninstagram.com/v/222_987654321_n.jpg'']]
   \<and> ''https://scontent.cdninstagram.com/v/111_123456789_n_s150x150.jpg''
       \<in> set (concat (group_images
     [''https://scontent.cdninstagram.com/v/111_123456789_n.jpg'',
      ''https://scontent.cdninstagram.com/v/111_123456789_n_s150x150.jpg'',
      ''https://scontent.cdninstagram.com/v/222_987654321_n.jpg'']))"
  by code_simp

end
